theory Spec2Isabelle
  imports Main
begin

section \<open>Strings\<close>

text \<open>
  A JavaScript string is modelled as a \<^typ>\<open>string\<close> that holds its UTF-8 bytes, the form
  in which the arguments arrive and the document is written to the file. The operations of
  the program that look inside a string (splitting on \<open>-\<close>, \<open>=\<close>, \<open>T\<close>, padding to two
  characters, the digit tests) concern ASCII characters; text outside ASCII (the Russian
  calendar name, scraped messages) is only compared and concatenated. A character outside
  ASCII counts as several bytes in \<open>padStart\<close>, which the program applies to the parts of
  date keys.
\<close>

definition nl :: char where
  "nl = CHR 0x0A"

text \<open>The ASCII members of the class \<open>\s\<close> and of the line terminators that \<open>.\<close> does
  not match. The regular expression of the program is applied to the literal parts of its
  one template only, which are ASCII.\<close>

definition is_space :: "char \<Rightarrow> bool" where
  "is_space c = (c = CHR 0x09 \<or> c = CHR 0x0A \<or> c = CHR 0x0B \<or> c = CHR 0x0C \<or> c = CHR 0x0D \<or> c = CHR 0x20)"

definition is_line_terminator :: "char \<Rightarrow> bool" where
  "is_line_terminator c = (c = CHR 0x0A \<or> c = CHR 0x0D)"

definition is_digit :: "char \<Rightarrow> bool" where
  "is_digit c = (48 \<le> (of_char c :: nat) \<and> (of_char c :: nat) \<le> 57)"

definition digit_val :: "char \<Rightarrow> nat" where
  "digit_val c = of_char c - 48"

definition digit_char :: "nat \<Rightarrow> char" where
  "digit_char n = char_of (48 + n)"

text \<open>\<open>s.startsWith(p)\<close>\<close>

definition startsWith :: "string \<Rightarrow> string \<Rightarrow> bool" where
  "startsWith s p = (take (length p) s = p)"

text \<open>
  The white space that \<open>trim\<close> removes (WhiteSpace and LineTerminator of ECMA-262): tab,
  line feed, vertical tab, form feed, carriage return, space, U+00A0, U+1680, U+2000 to
  U+200A, U+2028, U+2029, U+202F, U+205F, U+3000 and U+FEFF, each as its UTF-8 bytes.
\<close>

definition white_space :: "string list" where
  "white_space =
     [[CHR 0x09], [CHR 0x0A], [CHR 0x0B], [CHR 0x0C], [CHR 0x0D], [CHR 0x20],
      [CHR 0xC2, CHR 0xA0], [CHR 0xE1, CHR 0x9A, CHR 0x80],
      [CHR 0xE2, CHR 0x80, CHR 0x80], [CHR 0xE2, CHR 0x80, CHR 0x81],
      [CHR 0xE2, CHR 0x80, CHR 0x82], [CHR 0xE2, CHR 0x80, CHR 0x83],
      [CHR 0xE2, CHR 0x80, CHR 0x84], [CHR 0xE2, CHR 0x80, CHR 0x85],
      [CHR 0xE2, CHR 0x80, CHR 0x86], [CHR 0xE2, CHR 0x80, CHR 0x87],
      [CHR 0xE2, CHR 0x80, CHR 0x88], [CHR 0xE2, CHR 0x80, CHR 0x89],
      [CHR 0xE2, CHR 0x80, CHR 0x8A], [CHR 0xE2, CHR 0x80, CHR 0xA8],
      [CHR 0xE2, CHR 0x80, CHR 0xA9], [CHR 0xE2, CHR 0x80, CHR 0xAF],
      [CHR 0xE2, CHR 0x81, CHR 0x9F], [CHR 0xE3, CHR 0x80, CHR 0x80],
      [CHR 0xEF, CHR 0xBB, CHR 0xBF]]"

text \<open>Removing from the start of \<open>s\<close> every leading occurrence of one of the sequences
  \<open>ws\<close>.\<close>

function strip_start :: "string list \<Rightarrow> string \<Rightarrow> string" where
  "strip_start ws s =
     (case find (\<lambda>w. w \<noteq> [] \<and> startsWith s w) ws of
        None \<Rightarrow> s
      | Some w \<Rightarrow> strip_start ws (drop (length w) s))"
  by pat_completeness auto
termination
proof (relation "measure (\<lambda>(ws, s). length s)", goal_cases)
  case 1
  show ?case by simp
next
  case (2 ws s w)
  then have "w \<noteq> []" and "take (length w) s = w"
    by (auto simp: find_Some_iff startsWith_def)
  then have "w \<noteq> []" and "length (take (length w) s) = length w"
    by simp_all
  then have "length (drop (length w) s) < length s"
    by (cases w) auto
  then show ?case by simp
qed

declare strip_start.simps [simp del]

text \<open>\<open>s.trim()\<close>\<close>

definition trim :: "string \<Rightarrow> string" where
  "trim s = rev (strip_start (map rev white_space) (rev (strip_start white_space s)))"

text \<open>\<open>s.split(c)\<close> for a one-character separator: never empty, \<open>''''.split(c)\<close> is \<open>['''']\<close>.\<close>

fun split_char :: "char \<Rightarrow> string \<Rightarrow> string list" where
  "split_char c [] = [[]]"
| "split_char c (x # xs) =
     (if x = c then [] # split_char c xs
      else (case split_char c xs of
              [] \<Rightarrow> [[x]]
            | w # ws \<Rightarrow> (x # w) # ws))"

text \<open>\<open>parts.join(sep)\<close>\<close>

fun join :: "string \<Rightarrow> string list \<Rightarrow> string" where
  "join sep [] = []"
| "join sep [x] = x"
| "join sep (x # y # ys) = x @ sep @ join sep (y # ys)"

text \<open>\<open>s.padStart(n, '0')\<close>\<close>

definition padStart :: "nat \<Rightarrow> string \<Rightarrow> string" where
  "padStart n s = replicate (n - length s) (CHR ''0'') @ s"

text \<open>The test \<open>/^\d{4}$/\<close>: without the \<open>m\<close> flag the anchors are the two ends of the input.\<close>

definition four_digits :: "string \<Rightarrow> bool" where
  "four_digits s = (length s = 4 \<and> list_all is_digit s)"

text \<open>\<open>Number(s)\<close> on a string of decimal digits.\<close>

definition digits_val :: "string \<Rightarrow> nat" where
  "digits_val s = foldl (\<lambda>n c. 10 * n + digit_val c) 0 s"

text \<open>The decimal rendering of \<open>n\<close> on exactly \<open>w\<close> digits (for \<open>n < 10 ^ w\<close>).\<close>

fun digits :: "nat \<Rightarrow> nat \<Rightarrow> string" where
  "digits 0 n = []"
| "digits (Suc w) n = digits w (n div 10) @ [digit_char (n mod 10)]"


section \<open>The template tag \<open>text\<close>\<close>

text \<open>
  \<open>el.replace(/\n.\s{2,}/gi, '\n')\<close>: scanning from the left, a line feed, one character
  that is no line terminator and the longest run of white space after it, when that run has
  at least two characters, are replaced by a line feed; the scan goes on behind the match.
\<close>

function replace_indent :: "string \<Rightarrow> string" where
  "replace_indent [] = []"
| "replace_indent [c] = [c]"
| "replace_indent (c # d # cs) =
     (if c = nl \<and> \<not> is_line_terminator d \<and> 2 \<le> length (takeWhile is_space cs)
      then nl # replace_indent (dropWhile is_space cs)
      else c # replace_indent (d # cs))"
  by pat_completeness auto
termination
  by (relation "measure length") (auto simp: length_dropWhile_le le_imp_less_Suc less_SucI)

text \<open>\<open>.replace(/^\n/gi, '')\<close>: one line feed at the very start is removed.\<close>

fun replace_leading_nl :: "string \<Rightarrow> string" where
  "replace_leading_nl [] = []"
| "replace_leading_nl (c # cs) = (if c = nl then cs else c # cs)"

text \<open>\<open>param[index] || ''\<close>: a missing or undefined parameter and the empty string give the
  empty string.\<close>

definition param_or_empty :: "string option list \<Rightarrow> nat \<Rightarrow> string" where
  "param_or_empty param i =
     (if i < length param then (case param ! i of None \<Rightarrow> [] | Some p \<Rightarrow> (if p = [] then [] else p))
      else [])"

definition text_tag :: "string list \<Rightarrow> string option list \<Rightarrow> string" where
  "text_tag raw param =
     trim (join [nl]
       (map (\<lambda>(el, index). replace_leading_nl (replace_indent el) @ param_or_empty param index)
            (zip raw [0 ..< length raw])))"


section \<open>\<open>formatDate\<close>\<close>

definition formatDate :: "string \<Rightarrow> string \<Rightarrow> string" where
  "formatDate date sep = join sep (map (padStart 2) (split_char (CHR ''-'') date))"


section \<open>\<open>parseCliYear\<close>\<close>

datatype error = RangeError | YearRequired | YearInvalid






text \<open>
  \<open>nowYear\<close> is \<open>String(new Date().getFullYear())\<close>: it reads the clock, so it is an
  argument of the model.
\<close>




section \<open>Time values and the calendar\<close>

text \<open>
  A time value is a number of milliseconds since 1970-01-01T00:00Z; \<open>NaN\<close> (an invalid
  \<open>Date\<close>) is \<open>None\<close>. All time values of valid dates are integers below \<open>2 ^ 53\<close>, where
  the arithmetic of doubles is exact; sums and differences of two of them keep their sign and
  are exact whenever the exact result is \<open>86400000\<close>, so \<^typ>\<open>int\<close> gives the same tests.
  The day arithmetic is that of ECMA-262 (Day Number, Year Number, Month Number, Date Number).
\<close>

definition msPerDay :: int where
  "msPerDay = 86400000"

definition DaysInYear :: "int \<Rightarrow> int" where
  "DaysInYear y =
     (if y mod 4 \<noteq> 0 then 365 else if y mod 100 \<noteq> 0 then 366 else if y mod 400 \<noteq> 0 then 365 else 366)"

definition DayFromYear :: "int \<Rightarrow> int" where
  "DayFromYear y = 365 * (y - 1970) + (y - 1969) div 4 - (y - 1901) div 100 + (y - 1601) div 400"

definition InLeapYear :: "int \<Rightarrow> int" where
  "InLeapYear y = (if DaysInYear y = 366 then 1 else 0)"

text \<open>The day within the year on which month \<open>m\<close> (0 to 11) begins; entry 12 is the length
  of the year.\<close>

definition MonthStart :: "int \<Rightarrow> nat \<Rightarrow> int" where
  "MonthStart leap m =
     [0, 31, 59, 90, 120, 151, 181, 212, 243, 273, 304, 334, 365] ! m + (if 2 \<le> m then leap else 0)"

definition DaysInMonth :: "int \<Rightarrow> nat \<Rightarrow> int" where
  "DaysInMonth y m = MonthStart (InLeapYear y) m - MonthStart (InLeapYear y) (m - 1)"

text \<open>\<open>MakeDay(year, month, date)\<close> for a month number in 0 to 11.\<close>

definition MakeDay :: "int \<Rightarrow> nat \<Rightarrow> int \<Rightarrow> int" where
  "MakeDay y m d = DayFromYear y + MonthStart (InLeapYear y) m + d - 1"

text \<open>\<open>YearFromTime\<close>: the largest year that begins on or before the day. The search starts
  from a year that is not too late.\<close>

function year_search :: "int \<Rightarrow> int \<Rightarrow> int" where
  "year_search day y = (if DayFromYear (y + 1) \<le> day then year_search day (y + 1) else y)"
  by pat_completeness auto
termination
proof (relation "measure (\<lambda>(day, y). nat (day - DayFromYear y))", goal_cases)
  case 1
  show ?case by simp
next
  case (2 day y)
  have "(y - 1969) div 4 \<le> (y + 1 - 1969) div 4"
    by (rule zdiv_mono1) simp_all
  moreover have "(y + 1 - 1901) div 100 \<le> (y - 1901 + 100) div 100"
    by (rule zdiv_mono1) simp_all
  then have "(y + 1 - 1901) div 100 \<le> (y - 1901) div 100 + 1"
    by simp
  moreover have "(y - 1601) div 400 \<le> (y + 1 - 1601) div 400"
    by (rule zdiv_mono1) simp_all
  moreover have "a \<le> a' \<Longrightarrow> b' \<le> b + 1 \<Longrightarrow> c \<le> c'
      \<Longrightarrow> 365 * (y - 1970) + a - b + c < 365 * (y + 1 - 1970) + a' - b' + c'"
    for a a' b b' c c' :: int
    by (simp add: algebra_simps)
  ultimately have "DayFromYear y < DayFromYear (y + 1)"
    unfolding DayFromYear_def by blast
  with 2 show ?case by simp
qed

declare year_search.simps [simp del]

definition YearFromDay :: "int \<Rightarrow> int" where
  "YearFromDay day = year_search day (1970 + (if 0 \<le> day then day div 366 else day div 365))"

definition DayWithinYear :: "int \<Rightarrow> int" where
  "DayWithinYear day = day - DayFromYear (YearFromDay day)"

definition MonthFromDay :: "int \<Rightarrow> nat" where
  "MonthFromDay day =
     (let d = DayWithinYear day; leap = InLeapYear (YearFromDay day)
      in if d < 31 then 0 else if d < 59 + leap then 1 else if d < 90 + leap then 2
         else if d < 120 + leap then 3 else if d < 151 + leap then 4 else if d < 181 + leap then 5
         else if d < 212 + leap then 6 else if d < 243 + leap then 7 else if d < 273 + leap then 8
         else if d < 304 + leap then 9 else if d < 334 + leap then 10 else 11)"

definition DateFromDay :: "int \<Rightarrow> int" where
  "DateFromDay day =
     DayWithinYear day - MonthStart (InLeapYear (YearFromDay day)) (MonthFromDay day) + 1"

text \<open>\<open>TimeClip\<close>: a \<open>Date\<close> holds no time value beyond 8.64e15 ms.\<close>

definition TimeClip :: "int \<Rightarrow> int option" where
  "TimeClip t = (if \<bar>t\<bar> \<le> 8640000000000000 then Some t else None)"

text \<open>
  \<open>Date.parse\<close>. ECMA-262 fixes the result for the date-only forms \<open>YYYY\<close>, \<open>YYYY-MM\<close>
  and \<open>YYYY-MM-DD\<close> of a valid date: midnight UTC of that day, a missing month or day being
  1. What any other string gives (among them \<open>2026-1-5\<close>, whose month and day are not on two
  digits) is left to the engine by the standard: the model takes it as the argument
  \<open>engine\<close>, the engine's result for those strings.
\<close>

definition two_digits :: "string \<Rightarrow> bool" where
  "two_digits s = (length s = 2 \<and> list_all is_digit s)"

definition iso_fields :: "string \<Rightarrow> (nat \<times> nat \<times> nat) option" where
  "iso_fields s =
     (case split_char (CHR ''-'') s of
        [y] \<Rightarrow> if four_digits y then Some (digits_val y, 1, 1) else None
      | [y, m] \<Rightarrow> if four_digits y \<and> two_digits m then Some (digits_val y, digits_val m, 1) else None
      | [y, m, d] \<Rightarrow>
          if four_digits y \<and> two_digits m \<and> two_digits d
          then Some (digits_val y, digits_val m, digits_val d) else None
      | _ \<Rightarrow> None)"

definition valid_date :: "nat \<Rightarrow> nat \<Rightarrow> nat \<Rightarrow> bool" where
  "valid_date y m d = (1 \<le> m \<and> m \<le> 12 \<and> 1 \<le> d \<and> int d \<le> DaysInMonth (int y) m)"

definition Date_parse :: "(string \<Rightarrow> int option) \<Rightarrow> string \<Rightarrow> int option" where
  "Date_parse engine s =
     (case iso_fields s of
        Some (y, m, d) \<Rightarrow>
          if valid_date y m d then Some (msPerDay * MakeDay (int y) (m - 1) (int d)) else engine s
      | None \<Rightarrow> engine s)"

text \<open>\<open>new Date(s).getTime()\<close>\<close>

definition getTime :: "(string \<Rightarrow> int option) \<Rightarrow> string \<Rightarrow> int option" where
  "getTime engine s = Option.bind (Date_parse engine s) TimeClip"

text \<open>\<open>toISOString\<close> of a valid time value: \<open>YYYY-MM-DDTHH:mm:ss.sssZ\<close>, the year on six
  digits with a sign outside 0 to 9999.\<close>

definition year_string :: "int \<Rightarrow> string" where
  "year_string y =
     (if 0 \<le> y \<and> y \<le> 9999 then digits 4 (nat y)
      else (if y < 0 then ''-'' else ''+'') @ digits 6 (nat \<bar>y\<bar>))"

definition toISOString :: "int \<Rightarrow> string" where
  "toISOString t =
     (let day = t div msPerDay; ms = nat (t mod msPerDay)
      in year_string (YearFromDay day) @ ''-'' @ digits 2 (MonthFromDay day + 1) @ ''-''
         @ digits 2 (nat (DateFromDay day)) @ ''T'' @ digits 2 (ms div 3600000) @ '':''
         @ digits 2 (ms div 60000 mod 60) @ '':'' @ digits 2 (ms div 1000 mod 60) @ ''.''
         @ digits 3 (ms mod 1000) @ ''Z'')"


section \<open>\<open>createEvent\<close>\<close>

text \<open>An entry of \<open>groups\<close>, also the argument of \<open>createEvent\<close>:
  \<open>{ start: string, end: string, message?: string }\<close>.\<close>

record date_range =
  g_start :: string
  g_end :: string
  g_message :: "string option"

text \<open>The literal parts (\<open>strings.raw\<close>) of the template in \<open>createEvent\<close>: each line of the
  source is indented by four blanks, the closing line by two.\<close>

definition event_raw :: "string list" where
  "event_raw =
     [''\<newline>    BEGIN:VEVENT\<newline>    SUMMARY:'',
      ''\<newline>    DTSTART;VALUE=DATE:'',
      ''\<newline>    DTEND;VALUE=DATE:'',
      ''\<newline>    UID:'',
      ''\<newline>    END:VEVENT\<newline>  '']"

text \<open>
  \<open>uid\<close> is the value of the call \<open>makeId()\<close> in the template. \<open>new Date(NaN)\<close> and a sum
  beyond the range of time values are invalid dates, on which \<open>toISOString\<close> throws a
  \<open>RangeError\<close>.
\<close>

definition createEvent :: "(string \<Rightarrow> int option) \<Rightarrow> string \<Rightarrow> date_range \<Rightarrow> error + string" where
  "createEvent engine uid params =
     (case Option.bind (getTime engine (formatDate (g_end params) ''-''))
             (\<lambda>t. TimeClip (t + 24 * 60 * 60 * 1000)) of
        None \<Rightarrow> Inl RangeError
      | Some t \<Rightarrow>
          (let end = hd (split_char (CHR ''T'') (toISOString t))
           in Inr (text_tag event_raw
                 [g_message params, Some (formatDate (g_start params) []),
                  Some (formatDate end []), Some uid])))"


section \<open>\<open>makeGroups\<close>\<close>

record annotation =
  message :: string
  holyday :: bool
  shortened :: bool

text \<open>A \<open>Map\<close> keeps its entries in insertion order, one per key: a list of pairs with
  distinct keys. \<open>keys()\<close> is \<^term>\<open>map fst\<close> and \<open>get\<close> is \<^const>\<open>map_of\<close>.\<close>

type_synonym annotation_map = "(string \<times> annotation) list"

text \<open>
  The comparison function of the sort; a \<open>NaN\<close> result is read by \<open>sort\<close> as \<open>+0\<close>.
\<close>

definition compare_dates :: "(string \<Rightarrow> int option) \<Rightarrow> string \<Rightarrow> string \<Rightarrow> int" where
  "compare_dates engine a b =
     (case (getTime engine a, getTime engine b) of
        (Some x, Some y) \<Rightarrow> x - y
      | _ \<Rightarrow> 0)"

text \<open>
  \<open>Array.prototype.sort\<close> is stable. For a consistent comparison function its result is
  the one stable sorted arrangement, which insertion from the right computes; for an
  inconsistent one (some keys without a time value) the standard only promises a
  rearrangement, and the insertion sort stands for one possible choice.
\<close>

fun insert_cmp :: "('a \<Rightarrow> 'a \<Rightarrow> int) \<Rightarrow> 'a \<Rightarrow> 'a list \<Rightarrow> 'a list" where
  "insert_cmp cmp x [] = [x]"
| "insert_cmp cmp x (y # ys) = (if cmp x y \<le> 0 then x # y # ys else y # insert_cmp cmp x ys)"

definition sort_cmp :: "('a \<Rightarrow> 'a \<Rightarrow> int) \<Rightarrow> 'a list \<Rightarrow> 'a list" where
  "sort_cmp cmp xs = foldr (insert_cmp cmp) xs []"

definition sortedDates :: "(string \<Rightarrow> int option) \<Rightarrow> annotation_map \<Rightarrow> string list" where
  "sortedDates engine holydayOffList = sort_cmp (compare_dates engine) (map fst holydayOffList)"

text \<open>
  The function given to \<open>reduce\<close>. \<open>prevDateEnd\<close> is \<open>null\<close> for an empty \<open>acc\<close>; the
  condition \<open>prevDateEnd && ...\<close> holds for a number other than \<open>0\<close> and \<open>NaN\<close> only, and
  \<open>currDate - prevDateEnd === 86400000\<close> fails when \<open>currDate\<close> is \<open>NaN\<close>.
\<close>

definition group_step ::
  "(string \<Rightarrow> int option) \<Rightarrow> (string \<rightharpoonup> annotation) \<Rightarrow> date_range list \<Rightarrow> string \<Rightarrow> date_range list" where
  "group_step engine get acc el =
     (let prevDateEnd = (if acc = [] then None else getTime engine (g_end (last acc)));
          currDate = getTime engine el;
          dateStartParams = get el
      in if (case prevDateEnd of None \<Rightarrow> False | Some p \<Rightarrow> p \<noteq> 0)
            \<and> map_option message dateStartParams = g_message (last acc)
            \<and> (case (currDate, prevDateEnd) of
                  (Some c, Some p) \<Rightarrow> c - p = 24 * 60 * 60 * 1000
                | _ \<Rightarrow> False)
         then butlast acc @ [(last acc)\<lparr>g_end := el\<rparr>]
         else acc @ [\<lparr>g_start = el, g_end = el, g_message = map_option message dateStartParams\<rparr>])"

definition makeGroups :: "(string \<Rightarrow> int option) \<Rightarrow> annotation_map \<Rightarrow> date_range list" where
  "makeGroups engine holydayOffList =
     foldl (group_step engine (map_of holydayOffList)) [] (sortedDates engine holydayOffList)"


section \<open>The document built by \<open>main\<close>\<close>







section \<open>An engine and two generators for the examples\<close>

text \<open>
  The engine that accepts no string beyond the date forms fixed by the standard. An engine
  that reads a key \<open>year-month-day\<close> of a valid date, the month and the day on one or two
  digits as \<open>parseData\<close> writes them, as midnight local time in a zone that is \<open>ahead\<close>
  milliseconds ahead of UTC all year; with three hours that is Moscow time. (A key whose
  month and day are both on two digits is of the standard's form and is midnight UTC in
  every engine.) A generator whose identifiers are all different, and one that repeats itself.
\<close>

definition strict_engine :: "string \<Rightarrow> int option" where
  "strict_engine s = None"

definition one_or_two_digits :: "string \<Rightarrow> bool" where
  "one_or_two_digits s = ((length s = 1 \<or> length s = 2) \<and> list_all is_digit s)"

definition local_engine :: "int \<Rightarrow> string \<Rightarrow> int option" where
  "local_engine ahead s =
     (case split_char (CHR ''-'') s of
        [y, m, d] \<Rightarrow>
          if four_digits y \<and> one_or_two_digits m \<and> one_or_two_digits d
             \<and> valid_date (digits_val y) (digits_val m) (digits_val d)
          then Some (msPerDay * MakeDay (int (digits_val y)) (digits_val m - 1) (int (digits_val d))
                     - ahead)
          else None
      | _ \<Rightarrow> None)"

definition moscow_engine :: "string \<Rightarrow> int option" where
  "moscow_engine = local_engine (3 * 60 * 60 * 1000)"

definition counter_ids :: "nat \<Rightarrow> string" where
  "counter_ids i = digits 50 i"

definition same_ids :: "nat \<Rightarrow> string" where
  "same_ids i = replicate 50 (CHR ''a'')"


section \<open>The text of an event and of the document, as the statements read it\<close>

text \<open>The event block for a summary, the two date fields and an identifier.\<close>

definition message_text :: "string option \<Rightarrow> string" where
  "message_text m = (case m of None \<Rightarrow> [] | Some s \<Rightarrow> s)"

definition event_text :: "string \<Rightarrow> string \<Rightarrow> string \<Rightarrow> string \<Rightarrow> string" where
  "event_text summary dtstart dtend uid =
     ''BEGIN:VEVENT'' @ [nl] @ ''SUMMARY:'' @ summary @ [nl] @ ''DTSTART;VALUE=DATE:'' @ dtstart
     @ [nl] @ ''DTEND;VALUE=DATE:'' @ dtend @ [nl] @ ''UID:'' @ uid @ [nl] @ ''END:VEVENT''"

text \<open>The lines of a text; a line with leading white space; a text none of whose lines has
  leading white space; a text none of whose lines after the first has.\<close>

definition lines :: "string \<Rightarrow> string list" where
  "lines s = split_char nl s"

definition leading_space :: "string \<Rightarrow> bool" where
  "leading_space l = list_ex (\<lambda>w. startsWith l w) white_space"

definition clean_lines :: "string \<Rightarrow> bool" where
  "clean_lines s = list_all (\<lambda>l. \<not> leading_space l) (lines s)"

definition clean_continuation :: "string \<Rightarrow> bool" where
  "clean_continuation s = list_all (\<lambda>l. \<not> leading_space l) (tl (lines s))"

text \<open>What nanoid's \<open>customAlphabet('1234567890abcdef', 50)\<close> returns: 50 characters of
  the alphabet. The identifier of an event is read from its line before the last.\<close>

definition valid_id :: "string \<Rightarrow> bool" where
  "valid_id u = (length u = 50 \<and> list_all (\<lambda>c. c \<in> set ''1234567890abcdef'') u)"

definition event_uid :: "string \<Rightarrow> string" where
  "event_uid event = drop 4 (last (butlast (lines event)))"

text \<open>A range whose keys are keys of the map and whose message is the one the map has for
  its start.\<close>

definition from_map :: "(string \<rightharpoonup> annotation) \<Rightarrow> string set \<Rightarrow> date_range \<Rightarrow> bool" where
  "from_map get ks g =
     (g_start g \<in> ks \<and> g_end g \<in> ks \<and> g_message g = map_option message (get (g_start g)))"


section \<open>Days, as the statements about \<open>makeGroups\<close> read the keys\<close>

text \<open>
  The claims about ranges speak of dates in chronological order and of the days of a range.
  \<open>makeGroups\<close> reads a key through \<open>new Date(key).getTime()\<close> only. A key has a time
  value when that date is valid; its day is the day (a number of days since 1970-01-01, UTC)
  on which the time value falls. The keys of a map are dated when each has a time value and
  no two of them fall on the same day.
\<close>

definition has_time :: "(string \<Rightarrow> int option) \<Rightarrow> string \<Rightarrow> bool" where
  "has_time engine k = (getTime engine k \<noteq> None)"

definition key_time :: "(string \<Rightarrow> int option) \<Rightarrow> string \<Rightarrow> int" where
  "key_time engine k = (case getTime engine k of Some t \<Rightarrow> t | None \<Rightarrow> 0)"







section \<open>Calendar dates, as the statement about \<open>createEvent\<close> reads them\<close>

text \<open>
  The Gregorian calendar, written without reference to time values: leap years, the length
  of a month (1 to 12), the dates of the calendar, and the date of the next day.
\<close>

definition leap_year :: "nat \<Rightarrow> bool" where
  "leap_year y = (y mod 4 = 0 \<and> (y mod 100 \<noteq> 0 \<or> y mod 400 = 0))"

definition month_length :: "nat \<Rightarrow> nat \<Rightarrow> nat" where
  "month_length y m =
     (if m = 2 then (if leap_year y then 29 else 28)
      else if m = 4 \<or> m = 6 \<or> m = 9 \<or> m = 11 then 30 else 31)"

definition calendar_date :: "nat \<Rightarrow> nat \<Rightarrow> nat \<Rightarrow> bool" where
  "calendar_date y m d = (1 \<le> m \<and> m \<le> 12 \<and> 1 \<le> d \<and> d \<le> month_length y m)"

definition next_date :: "nat \<times> nat \<times> nat \<Rightarrow> nat \<times> nat \<times> nat" where
  "next_date date =
     (case date of (y, m, d) \<Rightarrow>
        if d < month_length y m then (y, m, d + 1)
        else if m < 12 then (y, m + 1, 1)
        else (y + 1, 1, 1))"

text \<open>A date as eight digits \<open>YYYYMMDD\<close>. The keys that spell a date: the year on four
  digits, the month and the day each on two digits or, below 10, also on one (\<open>parseData\<close>
  builds the key from the numbers, without padding).\<close>

definition yyyymmdd :: "nat \<times> nat \<times> nat \<Rightarrow> string" where
  "yyyymmdd date = (case date of (y, m, d) \<Rightarrow> digits 4 y @ digits 2 m @ digits 2 d)"

definition field_spellings :: "nat \<Rightarrow> string list" where
  "field_spellings n = (if n < 10 then [digits 1 n, digits 2 n] else [digits 2 n])"

definition date_keys :: "nat \<Rightarrow> nat \<Rightarrow> nat \<Rightarrow> string list" where
  "date_keys y m d =
     concat (map (\<lambda>ms. map (\<lambda>ds. digits 4 y @ ''-'' @ ms @ ''-'' @ ds) (field_spellings d))
       (field_spellings m))"


section \<open>The year on the command line\<close>





section \<open>The empty calendar\<close>


section \<open>The ranges built by \<open>makeGroups\<close>\<close>

subsection \<open>One step of the walk\<close>

lemma has_time_Some: "has_time engine k \<Longrightarrow> getTime engine k = Some (key_time engine k)"
  by (auto simp: has_time_def key_time_def)







subsection \<open>The sort\<close>




subsection \<open>Ranges of a strictly increasing walk\<close>
















subsection \<open>Two adjacent days read in two ways\<close>

text \<open>
  Claim C3. The claim says that a date is merged into the open range if and only if it is
  exactly one calendar day after the end of that range and has the same message. The code
  compares the time values of \<open>new Date(key)\<close>, and \<open>parseData\<close> writes the keys without
  padding: \<open>2027-10-9\<close> is read by the engine's own parser, as local midnight, while
  \<open>2027-10-10\<close> is of the standard's form and is midnight UTC. In a zone that is not at UTC,
  here Moscow, the two time values are 27 hours apart, and the Saturday and the Sunday with
  one message give two ranges. The days before (both read as local time) and the days after
  (both read as UTC) are merged.
\<close>

theorem makeGroups_mixed_keys_not_merged:
  "makeGroups moscow_engine [(''2027-10-9'', a), (''2027-10-10'', a)]
     = [\<lparr>g_start = ''2027-10-9'', g_end = ''2027-10-9'', g_message = Some (message a)\<rparr>,
        \<lparr>g_start = ''2027-10-10'', g_end = ''2027-10-10'', g_message = Some (message a)\<rparr>]
   \<and> makeGroups moscow_engine [(''2027-10-8'', a), (''2027-10-9'', a)]
     = [\<lparr>g_start = ''2027-10-8'', g_end = ''2027-10-9'', g_message = Some (message a)\<rparr>]
   \<and> makeGroups moscow_engine [(''2027-10-10'', a), (''2027-10-11'', a)]
     = [\<lparr>g_start = ''2027-10-10'', g_end = ''2027-10-11'', g_message = Some (message a)\<rparr>]"
  by code_simp

section \<open>The text of an event\<close>

lemma strip_start_none:
  "find (\<lambda>w. w \<noteq> [] \<and> startsWith s w) ws = None \<Longrightarrow> strip_start ws s = s"
  by (subst strip_start.simps) simp

lemma strip_start_some:
  "find (\<lambda>w. w \<noteq> [] \<and> startsWith s w) ws = Some w
    \<Longrightarrow> strip_start ws s = strip_start ws (drop (length w) s)"
  by (subst strip_start.simps) simp

lemma trim_event_frame:
  "trim (CHR ''B'' # s @ CHR ''T'' # [nl, CHR '' '', CHR '' '']) = CHR ''B'' # s @ [CHR ''T'']"
proof -
  let ?ends = "map rev white_space"
  have "strip_start white_space (CHR ''B'' # s @ CHR ''T'' # [nl, CHR '' '', CHR '' ''])
          = CHR ''B'' # s @ CHR ''T'' # [nl, CHR '' '', CHR '' '']"
    by (rule strip_start_none) (simp add: white_space_def startsWith_def)
  moreover have "strip_start ?ends (CHR '' '' # CHR '' '' # nl # CHR ''T'' # rev s @ [CHR ''B''])
          = strip_start ?ends (CHR '' '' # nl # CHR ''T'' # rev s @ [CHR ''B''])"
    by (subst strip_start_some [where w = "[CHR '' '']"])
      (simp_all add: white_space_def startsWith_def nl_def)
  moreover have "strip_start ?ends (CHR '' '' # nl # CHR ''T'' # rev s @ [CHR ''B''])
          = strip_start ?ends (nl # CHR ''T'' # rev s @ [CHR ''B''])"
    by (subst strip_start_some [where w = "[CHR '' '']"])
      (simp_all add: white_space_def startsWith_def nl_def)
  moreover have "strip_start ?ends (nl # CHR ''T'' # rev s @ [CHR ''B''])
          = strip_start ?ends (CHR ''T'' # rev s @ [CHR ''B''])"
    by (subst strip_start_some [where w = "[nl]"])
      (simp_all add: white_space_def startsWith_def nl_def)
  moreover have "strip_start ?ends (CHR ''T'' # rev s @ [CHR ''B'']) = CHR ''T'' # rev s @ [CHR ''B'']"
    by (rule strip_start_none) (simp add: white_space_def startsWith_def)
  ultimately show ?thesis
    by (simp add: trim_def)
qed

lemma event_raw_parts:
  "map (\<lambda>el. replace_leading_nl (replace_indent el)) event_raw
     = [''BEGIN:VEVENT'' @ [nl] @ ''SUMMARY:'', ''DTSTART;VALUE=DATE:'', ''DTEND;VALUE=DATE:'',
        ''UID:'', ''END:VEVENT'' @ [nl] @ ''  '']"
  by code_simp

lemma text_tag_event:
  "text_tag event_raw [m, Some s, Some e, Some u] = event_text (message_text m) s e u"
proof -
  let ?p = "param_or_empty [m, Some s, Some e, Some u]"
  have idx: "[0 ..< length event_raw] = [0, 1, 2, 3, 4]"
    by (simp add: event_raw_def upt_rec)
  have "map (\<lambda>(el, index). replace_leading_nl (replace_indent el) @ ?p index)
          (zip event_raw [0 ..< length event_raw])
        = map (\<lambda>(x, index). x @ ?p index)
            (zip (map (\<lambda>el. replace_leading_nl (replace_indent el)) event_raw) [0 ..< length event_raw])"
    by (simp add: zip_map1 case_prod_unfold)
  also have "\<dots> = [''BEGIN:VEVENT'' @ [nl] @ ''SUMMARY:'' @ message_text m, ''DTSTART;VALUE=DATE:'' @ s,
           ''DTEND;VALUE=DATE:'' @ e, ''UID:'' @ u, ''END:VEVENT'' @ [nl] @ ''  '']"
    unfolding event_raw_parts idx
    by (simp add: param_or_empty_def message_text_def split: option.splits)
  finally have parts: "map (\<lambda>(el, index). replace_leading_nl (replace_indent el) @ ?p index)
          (zip event_raw [0 ..< length event_raw])
        = [''BEGIN:VEVENT'' @ [nl] @ ''SUMMARY:'' @ message_text m, ''DTSTART;VALUE=DATE:'' @ s,
           ''DTEND;VALUE=DATE:'' @ e, ''UID:'' @ u, ''END:VEVENT'' @ [nl] @ ''  '']" .
  have "text_tag event_raw [m, Some s, Some e, Some u]
        = trim (CHR ''B'' # (''EGIN:VEVENT'' @ [nl] @ ''SUMMARY:'' @ message_text m @ [nl]
                  @ ''DTSTART;VALUE=DATE:'' @ s @ [nl] @ ''DTEND;VALUE=DATE:'' @ e @ [nl]
                  @ ''UID:'' @ u @ [nl] @ ''END:VEVEN'') @ CHR ''T'' # [nl, CHR '' '', CHR '' ''])"
    unfolding text_tag_def parts by simp
  also have "\<dots> = CHR ''B'' # (''EGIN:VEVENT'' @ [nl] @ ''SUMMARY:'' @ message_text m @ [nl]
                  @ ''DTSTART;VALUE=DATE:'' @ s @ [nl] @ ''DTEND;VALUE=DATE:'' @ e @ [nl]
                  @ ''UID:'' @ u @ [nl] @ ''END:VEVEN'') @ [CHR ''T'']"
    by (rule trim_event_frame)
  also have "\<dots> = event_text (message_text m) s e u"
    by (simp add: event_text_def)
  finally show ?thesis .
qed

lemma createEvent_text:
  "createEvent engine uid params =
     (case Option.bind (getTime engine (formatDate (g_end params) ''-''))
             (\<lambda>t. TimeClip (t + 24 * 60 * 60 * 1000)) of
        None \<Rightarrow> Inl RangeError
      | Some t \<Rightarrow>
          Inr (event_text (message_text (g_message params)) (formatDate (g_start params) [])
                 (formatDate (hd (split_char (CHR ''T'') (toISOString t))) []) uid))"
  by (simp add: createEvent_def text_tag_event split: option.splits)

subsection \<open>Years\<close>

lemma div_succ:
  fixes a k :: int
  assumes "0 < k"
  shows "(a + 1) div k = a div k + (if (a + 1) mod k = 0 then 1 else 0)"
proof -
  let ?q = "a div k" and ?r = "a mod k"
  have r: "0 \<le> ?r" "?r < k" using assms by simp_all
  have a: "a + 1 = k * ?q + (?r + 1)" by simp
  show ?thesis
  proof (cases "?r + 1 < k")
    case True
    have "(a + 1) div k = ?q"
      by (rule int_div_pos_eq [OF a]) (use r True in auto)
    moreover have "(a + 1) mod k = ?r + 1"
      by (rule int_mod_pos_eq [OF a]) (use r True in auto)
    ultimately show ?thesis using r by simp
  next
    case False
    with r have e: "?r + 1 = k" by simp
    have "a + 1 = k * ?q + (?r + 1)" by (rule a)
    also have "\<dots> = k * ?q + k" by (simp only: e)
    also have "\<dots> = k * (?q + 1) + 0" by (simp add: algebra_simps)
    finally have a': "a + 1 = k * (?q + 1) + 0" .
    have "(a + 1) div k = ?q + 1"
      by (rule int_div_pos_eq [OF a']) (use assms in auto)
    moreover have "(a + 1) mod k = 0"
      by (rule int_mod_pos_eq [OF a']) (use assms in auto)
    ultimately show ?thesis by simp
  qed
qed

lemma mod_shift:
  fixes y :: int
  shows "(y - 1968) mod 4 = 0 \<longleftrightarrow> y mod 4 = 0"
    and "(y - 1900) mod 100 = 0 \<longleftrightarrow> y mod 100 = 0"
    and "(y - 1600) mod 400 = 0 \<longleftrightarrow> y mod 400 = 0"
proof -
  have "4 dvd (y - 1968) \<longleftrightarrow> 4 dvd y" by (rule dvd_diff_left_iff) simp
  then show "(y - 1968) mod 4 = 0 \<longleftrightarrow> y mod 4 = 0" by (simp only: mod_eq_0_iff_dvd)
  have "100 dvd (y - 1900) \<longleftrightarrow> 100 dvd y" by (rule dvd_diff_left_iff) simp
  then show "(y - 1900) mod 100 = 0 \<longleftrightarrow> y mod 100 = 0" by (simp only: mod_eq_0_iff_dvd)
  have "400 dvd (y - 1600) \<longleftrightarrow> 400 dvd y" by (rule dvd_diff_left_iff) simp
  then show "(y - 1600) mod 400 = 0 \<longleftrightarrow> y mod 400 = 0" by (simp only: mod_eq_0_iff_dvd)
qed

lemma mod_chain:
  fixes y :: int
  shows "y mod 100 = 0 \<Longrightarrow> y mod 4 = 0" and "y mod 400 = 0 \<Longrightarrow> y mod 100 = 0"
proof -
  have a: "(4::int) dvd 100" and b: "(100::int) dvd 400" by simp_all
  show "y mod 100 = 0 \<Longrightarrow> y mod 4 = 0"
    unfolding mod_eq_0_iff_dvd by (rule dvd_trans [OF a])
  show "y mod 400 = 0 \<Longrightarrow> y mod 100 = 0"
    unfolding mod_eq_0_iff_dvd by (rule dvd_trans [OF b])
qed

lemma DayFromYear_Suc: "DayFromYear (y + 1) = DayFromYear y + DaysInYear y"
proof -
  have 1: "(y + 1 - 1969) div 4 = (y - 1969) div 4 + (if y mod 4 = 0 then 1 else 0)"
    using div_succ [of 4 "y - 1969"] mod_shift(1) [of y] by (simp add: algebra_simps)
  have 2: "(y + 1 - 1901) div 100 = (y - 1901) div 100 + (if y mod 100 = 0 then 1 else 0)"
    using div_succ [of 100 "y - 1901"] mod_shift(2) [of y] by (simp add: algebra_simps)
  have 3: "(y + 1 - 1601) div 400 = (y - 1601) div 400 + (if y mod 400 = 0 then 1 else 0)"
    using div_succ [of 400 "y - 1601"] mod_shift(3) [of y] by (simp add: algebra_simps)
  show ?thesis
    unfolding DayFromYear_def DaysInYear_def 1 2 3
    using mod_chain [of y] by auto
qed

lemma DaysInYear_cases: "DaysInYear y = 365 \<or> DaysInYear y = 366"
  by (simp add: DaysInYear_def)

lemma DayFromYear_1970: "DayFromYear 1970 = 0"
  by (simp add: DayFromYear_def)

lemma DayFromYear_mono: "y \<le> y' \<Longrightarrow> DayFromYear y \<le> DayFromYear y'"
proof (induction y' rule: int_ge_induct)
  case base
  show ?case by simp
next
  case (step i)
  then show ?case
    using DaysInYear_cases [of i] by (auto simp: DayFromYear_Suc)
qed

lemma DayFromYear_upper:
  "1970 \<le> y \<Longrightarrow> DayFromYear y \<le> 366 * (y - 1970)"
proof (induction y rule: int_ge_induct)
  case base
  show ?case by (simp add: DayFromYear_1970)
next
  case (step i)
  then show ?case
    using DaysInYear_cases [of i] by (auto simp: DayFromYear_Suc)
qed

lemma DayFromYear_upper_neg:
  "y \<le> 1970 \<Longrightarrow> DayFromYear y \<le> 365 * (y - 1970)"
proof (induction y rule: int_le_induct)
  case base
  show ?case by (simp add: DayFromYear_1970)
next
  case (step i)
  then show ?case
    using DaysInYear_cases [of "i - 1"] DayFromYear_Suc [of "i - 1"] by auto
qed

lemma year_search_eq:
  assumes "y0 \<le> y" and "DayFromYear y \<le> day" and "day < DayFromYear (y + 1)"
  shows "year_search day y0 = y"
  using assms
proof (induction "nat (y - y0)" arbitrary: y0)
  case 0
  then have "y0 = y" by simp
  with "0.prems" show ?case
    by (simp add: year_search.simps)
next
  case (Suc n)
  then have lt: "y0 + 1 \<le> y" by simp
  then have "DayFromYear (y0 + 1) \<le> day"
    using DayFromYear_mono [of "y0 + 1" y] Suc.prems(2) by simp
  moreover have "year_search day (y0 + 1) = y"
    using Suc.hyps(2) lt Suc.prems by (intro Suc.hyps(1)) simp_all
  ultimately show ?case
    by (subst year_search.simps) simp
qed

lemma YearFromDay_eq:
  assumes "DayFromYear y \<le> day" and "day < DayFromYear (y + 1)"
  shows "YearFromDay day = y"
proof -
  define y0 where "y0 = 1970 + (if 0 \<le> day then day div 366 else day div 365)"
  have "DayFromYear y0 \<le> day"
  proof (cases "0 \<le> day")
    case True
    then have "1970 \<le> y0"
      by (simp add: y0_def pos_imp_zdiv_nonneg_iff)
    then have "DayFromYear y0 \<le> 366 * (y0 - 1970)"
      by (rule DayFromYear_upper)
    also have "\<dots> = 366 * (day div 366)"
      using True by (simp add: y0_def)
    also have "\<dots> \<le> day"
      using mult_div_mod_eq [of 366 day] pos_mod_sign [of 366 day] by linarith
    finally show ?thesis .
  next
    case False
    then have "y0 \<le> 1970"
      by (simp add: y0_def div_neg_pos_less0 less_imp_le)
    then have "DayFromYear y0 \<le> 365 * (y0 - 1970)"
      by (rule DayFromYear_upper_neg)
    also have "\<dots> = 365 * (day div 365)"
      using False by (simp add: y0_def)
    also have "\<dots> \<le> day"
      using mult_div_mod_eq [of 365 day] pos_mod_sign [of 365 day] by linarith
    finally show ?thesis .
  qed
  with assms(2) have "DayFromYear y0 < DayFromYear (y + 1)"
    by simp
  then have "y0 \<le> y"
    using DayFromYear_mono [of "y + 1" y0] by (cases "y0 \<le> y") auto
  then have "year_search day y0 = y"
    using assms by (rule year_search_eq)
  then show ?thesis
    by (simp add: YearFromDay_def y0_def)
qed

subsection \<open>Months\<close>

lemma mod_int_nat:
  fixes y :: nat
  shows "int y mod 4 = 0 \<longleftrightarrow> y mod 4 = 0" and "int y mod 100 = 0 \<longleftrightarrow> y mod 100 = 0"
    and "int y mod 400 = 0 \<longleftrightarrow> y mod 400 = 0"
proof -
  have "int y mod int k = 0 \<longleftrightarrow> y mod k = 0" for k
    by (simp add: zmod_int [symmetric])
  from this [of 4] this [of 100] this [of 400]
  show "int y mod 4 = 0 \<longleftrightarrow> y mod 4 = 0" and "int y mod 100 = 0 \<longleftrightarrow> y mod 100 = 0"
    and "int y mod 400 = 0 \<longleftrightarrow> y mod 400 = 0"
    by simp_all
qed

lemma DaysInYear_leap: "DaysInYear (int y) = (if leap_year y then 366 else 365)"
  using mod_chain [of "int y"]
  by (auto simp: DaysInYear_def leap_year_def mod_int_nat)

lemma InLeapYear_leap: "InLeapYear (int y) = (if leap_year y then 1 else 0)"
  by (simp add: InLeapYear_def DaysInYear_leap)

lemma month_or:
  fixes m :: nat
  assumes "1 \<le> m" and "m \<le> 12"
  shows "m = 1 \<or> m = 2 \<or> m = 3 \<or> m = 4 \<or> m = 5 \<or> m = 6
    \<or> m = 7 \<or> m = 8 \<or> m = 9 \<or> m = 10 \<or> m = 11 \<or> m = 12"
  using assms by arith

lemma MonthStart_values:
  "MonthStart l 0 = 0" "MonthStart l 1 = 31" "MonthStart l (Suc 0) = 31" "MonthStart l 2 = 59 + l" "MonthStart l 3 = 90 + l"
  "MonthStart l 4 = 120 + l" "MonthStart l 5 = 151 + l" "MonthStart l 6 = 181 + l"
  "MonthStart l 7 = 212 + l" "MonthStart l 8 = 243 + l" "MonthStart l 9 = 273 + l"
  "MonthStart l 10 = 304 + l" "MonthStart l 11 = 334 + l" "MonthStart l 12 = 365 + l"
  by (simp_all add: MonthStart_def)

lemma DaysInMonth_length:
  assumes "1 \<le> m" and "m \<le> 12"
  shows "DaysInMonth (int y) m = int (month_length y m)"
  using month_or [OF assms]
  by (elim disjE) (simp_all add: DaysInMonth_def MonthStart_values InLeapYear_leap month_length_def)

lemma valid_date_calendar: "valid_date y m d = calendar_date y m d"
proof (cases "1 \<le> m \<and> m \<le> 12")
  case True
  then show ?thesis
    by (simp add: valid_date_def calendar_date_def DaysInMonth_length)
next
  case False
  then show ?thesis
    by (auto simp: valid_date_def calendar_date_def)
qed

lemma MonthStart_step:
  assumes "1 \<le> m" and "m \<le> 12"
  shows "MonthStart (InLeapYear (int y)) (m - 1) + int (month_length y m)
           = MonthStart (InLeapYear (int y)) m"
  using DaysInMonth_length [OF assms, of y] by (simp add: DaysInMonth_def)

lemma MonthStart_nonneg:
  assumes "1 \<le> m" and "m \<le> 12"
  shows "0 \<le> MonthStart (InLeapYear (int y)) (m - 1)"
  using month_or [OF assms]
  by (elim disjE) (simp_all add: MonthStart_values InLeapYear_leap)

lemma MonthStart_le_year:
  assumes "1 \<le> m" and "m \<le> 12"
  shows "MonthStart (InLeapYear (int y)) m \<le> DaysInYear (int y)"
  using month_or [OF assms]
  by (elim disjE) (simp_all add: MonthStart_values InLeapYear_leap DaysInYear_leap)

subsection \<open>From a day number back to the date\<close>

lemma MakeDay_within:
  assumes "calendar_date y m d"
  shows "0 \<le> MonthStart (InLeapYear (int y)) (m - 1) + int d - 1"
    and "MonthStart (InLeapYear (int y)) (m - 1) + int d - 1 < MonthStart (InLeapYear (int y)) m"
    and "MonthStart (InLeapYear (int y)) (m - 1) + int d - 1 < DaysInYear (int y)"
proof -
  from assms have m: "1 \<le> m" "m \<le> 12" and d: "1 \<le> d" "d \<le> month_length y m"
    by (simp_all add: calendar_date_def)
  show "0 \<le> MonthStart (InLeapYear (int y)) (m - 1) + int d - 1"
    using MonthStart_nonneg [OF m, of y] d by simp
  show lt: "MonthStart (InLeapYear (int y)) (m - 1) + int d - 1 < MonthStart (InLeapYear (int y)) m"
    using MonthStart_step [OF m, of y] d by simp
  show "MonthStart (InLeapYear (int y)) (m - 1) + int d - 1 < DaysInYear (int y)"
    using lt MonthStart_le_year [OF m, of y] by simp
qed

lemma YearFromDay_MakeDay:
  assumes "calendar_date y m d"
  shows "YearFromDay (MakeDay (int y) (m - 1) (int d)) = int y"
proof (rule YearFromDay_eq)
  show "DayFromYear (int y) \<le> MakeDay (int y) (m - 1) (int d)"
    using MakeDay_within(1) [OF assms] by (simp add: MakeDay_def)
  show "MakeDay (int y) (m - 1) (int d) < DayFromYear (int y + 1)"
    using MakeDay_within(3) [OF assms] by (simp add: MakeDay_def DayFromYear_Suc)
qed

lemma DayWithinYear_MakeDay:
  assumes "calendar_date y m d"
  shows "DayWithinYear (MakeDay (int y) (m - 1) (int d))
           = MonthStart (InLeapYear (int y)) (m - 1) + int d - 1"
proof -
  have "DayWithinYear (MakeDay (int y) (m - 1) (int d))
          = MakeDay (int y) (m - 1) (int d) - DayFromYear (int y)"
    unfolding DayWithinYear_def YearFromDay_MakeDay [OF assms] ..
  then show ?thesis
    unfolding MakeDay_def by simp
qed

lemma MonthFromDay_MakeDay:
  assumes "calendar_date y m d"
  shows "MonthFromDay (MakeDay (int y) (m - 1) (int d)) = m - 1"
proof -
  from assms have m: "1 \<le> m" "m \<le> 12"
    by (simp_all add: calendar_date_def)
  define l where "l = InLeapYear (int y)"
  define w where "w = MonthStart l (m - 1) + int d - 1"
  have l: "l = 0 \<or> l = 1"
    by (simp add: l_def InLeapYear_def)
  have lo: "MonthStart l (m - 1) \<le> w" and hi: "w < MonthStart l m"
    using MakeDay_within(1,2) [OF assms] assms
    by (simp_all add: w_def l_def calendar_date_def)
  have "(if w < 31 then 0 else if w < 59 + l then 1 else if w < 90 + l then 2
         else if w < 120 + l then 3 else if w < 151 + l then 4 else if w < 181 + l then 5
         else if w < 212 + l then 6 else if w < 243 + l then 7 else if w < 273 + l then 8
         else if w < 304 + l then 9 else if w < 334 + l then 10 else 11) = m - 1"
    using month_or [OF m] lo hi l
    by (elim disjE) (simp_all add: MonthStart_values)
  then show ?thesis
    unfolding MonthFromDay_def Let_def DayWithinYear_MakeDay [OF assms]
      YearFromDay_MakeDay [OF assms] l_def [symmetric] w_def [symmetric] .
qed

lemma DateFromDay_MakeDay:
  assumes "calendar_date y m d"
  shows "DateFromDay (MakeDay (int y) (m - 1) (int d)) = int d"
  unfolding DateFromDay_def DayWithinYear_MakeDay [OF assms] YearFromDay_MakeDay [OF assms]
    MonthFromDay_MakeDay [OF assms] by simp

subsection \<open>The next calendar day\<close>

lemma next_date_MakeDay:
  assumes "calendar_date y m d" and "next_date (y, m, d) = (y', m', d')"
  shows "calendar_date y' m' d'"
    and "MakeDay (int y') (m' - 1) (int d') = MakeDay (int y) (m - 1) (int d) + 1"
proof -
  from assms(1) have m: "1 \<le> m" "m \<le> 12" and d: "1 \<le> d" "d \<le> month_length y m"
    by (simp_all add: calendar_date_def)
  have len: "1 \<le> month_length y' 1" "1 \<le> month_length y (m + 1)"
    by (simp_all add: month_length_def)
  consider (day) "d < month_length y m" | (month) "d = month_length y m" "m < 12"
    | (year) "d = month_length y m" "m = 12"
    using d m by linarith
  then have "calendar_date y' m' d'
      \<and> MakeDay (int y') (m' - 1) (int d') = MakeDay (int y) (m - 1) (int d) + 1"
  proof cases
    case day
    with assms show ?thesis
      by (auto simp: next_date_def calendar_date_def MakeDay_def)
  next
    case month
    with assms(2) have e: "y' = y" "m' = m + 1" "d' = 1"
      by (simp_all add: next_date_def)
    have "MonthStart (InLeapYear (int y)) (m - 1) + int d = MonthStart (InLeapYear (int y)) m"
      using MonthStart_step [OF m, of y] month by simp
    then show ?thesis
      using month m len by (simp add: e calendar_date_def MakeDay_def)
  next
    case year
    with assms(2) have e: "y' = y + 1" "m' = 1" "d' = 1"
      by (simp_all add: next_date_def)
    have "d = 31"
      using year by (simp add: month_length_def)
    moreover have "DayFromYear (1 + int y) = DayFromYear (int y) + 365 + InLeapYear (int y)"
      using DayFromYear_Suc [of "int y"]
      by (simp add: add.commute InLeapYear_leap DaysInYear_leap)
    ultimately show ?thesis
      using year len by (simp add: e calendar_date_def MakeDay_def MonthStart_values)
  qed
  then show "calendar_date y' m' d'"
    and "MakeDay (int y') (m' - 1) (int d') = MakeDay (int y) (m - 1) (int d) + 1"
    by simp_all
qed

subsection \<open>Digits\<close>

lemma length_digits: "length (digits w n) = w"
  by (induction w n rule: digits.induct) simp_all

lemma of_char_digit_char: "(of_char (digit_char (n mod 10)) :: nat) = 48 + n mod 10"
proof -
  have "48 + n mod 10 < 256"
    by simp
  then show ?thesis
    by (simp add: digit_char_def)
qed

lemma is_digit_digit_char: "is_digit (digit_char (n mod 10))"
  by (simp add: is_digit_def of_char_digit_char)

lemma digit_val_digit_char: "digit_val (digit_char (n mod 10)) = n mod 10"
  by (simp add: digit_val_def of_char_digit_char)

lemma digits_all_digits: "list_all is_digit (digits w n)"
  by (induction w n rule: digits.induct) (simp_all add: is_digit_digit_char)

lemma is_digit_not_sep: "is_digit c \<Longrightarrow> c \<noteq> CHR ''-'' \<and> c \<noteq> CHR ''T'' \<and> c \<noteq> nl"
  by (auto simp: is_digit_def nl_def)

lemma digits_no_sep:
  "CHR ''-'' \<notin> set (digits w n)" "CHR ''T'' \<notin> set (digits w n)" "nl \<notin> set (digits w n)"
  using digits_all_digits [of w n] is_digit_not_sep by (auto simp: list_all_iff)

lemma digits_val_snoc: "digits_val (s @ [c]) = 10 * digits_val s + digit_val c"
  by (simp add: digits_val_def)

lemma digits_val_digits: "n < 10 ^ w \<Longrightarrow> digits_val (digits w n) = n"
proof (induction w n rule: digits.induct)
  case (1 n)
  then show ?case by (simp add: digits_val_def)
next
  case (2 w n)
  from "2.prems" have "n div 10 < 10 ^ w"
    by (simp add: less_mult_imp_div_less mult.commute)
  with "2.IH" show ?case
    by (simp add: digits_val_snoc digit_val_digit_char)
qed

lemma digits_inj:
  assumes "digits w a = digits w b" and "a < 10 ^ w" and "b < 10 ^ w"
  shows "a = b"
proof -
  have "a = digits_val (digits w a)"
    using assms(2) by (rule digits_val_digits [symmetric])
  also have "\<dots> = digits_val (digits w b)"
    using assms(1) by (rule arg_cong)
  also have "\<dots> = b"
    using assms(3) by (rule digits_val_digits)
  finally show ?thesis .
qed

lemma digits_one_two: "n < 10 \<Longrightarrow> digits 2 n = CHR ''0'' # digits 1 n"
proof -
  assume "n < 10"
  then have "n div 10 = 0" by simp
  moreover have "digit_char 0 = CHR ''0''"
    by code_simp
  ultimately show ?thesis
    by (simp add: numeral_2_eq_2)
qed

subsection \<open>Splitting and padding a key\<close>

lemma split_char_ne: "split_char c s \<noteq> []"
  by (induction s) (auto split: list.splits)

lemma split_char_no_sep: "c \<notin> set s \<Longrightarrow> split_char c s = [s]"
  by (induction s) auto

lemma split_char_append: "c \<notin> set a \<Longrightarrow> split_char c (a @ c # b) = a # split_char c b"
  by (induction a) auto

lemma padStart_long: "2 \<le> length s \<Longrightarrow> padStart 2 s = s"
  by (simp add: padStart_def)

lemma padStart_spelling:
  assumes "s \<in> set (field_spellings n)"
  shows "padStart 2 s = digits 2 n" and "CHR ''-'' \<notin> set s"
proof -
  from assms consider "s = digits 2 n" | "n < 10" "s = digits 1 n"
    by (auto simp: field_spellings_def split: if_splits)
  then show "padStart 2 s = digits 2 n"
  proof cases
    case 1
    then show ?thesis by (simp add: padStart_long length_digits)
  next
    case 2
    then show ?thesis
      by (simp add: padStart_def length_digits digits_one_two)
  qed
  from assms consider "s = digits 2 n" | "s = digits 1 n"
    by (auto simp: field_spellings_def split: if_splits)
  then show "CHR ''-'' \<notin> set s"
    by cases (simp_all only: digits_no_sep(1) not_False_eq_True)
qed

lemma date_keys_split:
  assumes "k \<in> set (date_keys y m d)"
  shows "map (padStart 2) (split_char (CHR ''-'') k) = [digits 4 y, digits 2 m, digits 2 d]"
proof -
  from assms obtain ms ds where ms: "ms \<in> set (field_spellings m)"
    and ds: "ds \<in> set (field_spellings d)" and k: "k = digits 4 y @ CHR ''-'' # ms @ CHR ''-'' # ds"
    by (auto simp: date_keys_def)
  have "split_char (CHR ''-'') k = [digits 4 y, ms, ds]"
    unfolding k
    by (simp add: split_char_append split_char_no_sep digits_no_sep(1) padStart_spelling(2) [OF ms]
        padStart_spelling(2) [OF ds])
  then show ?thesis
    by (simp add: padStart_long length_digits padStart_spelling(1) [OF ms]
        padStart_spelling(1) [OF ds])
qed

lemma formatDate_key:
  assumes "k \<in> set (date_keys y m d)"
  shows "formatDate k ''-'' = digits 4 y @ CHR ''-'' # digits 2 m @ CHR ''-'' # digits 2 d"
    and "formatDate k [] = yyyymmdd (y, m, d)"
  by (simp_all add: formatDate_def date_keys_split [OF assms] yyyymmdd_def)

lemma formatDate_iso:
  "formatDate (digits 4 y @ CHR ''-'' # digits 2 m @ CHR ''-'' # digits 2 d) [] = yyyymmdd (y, m, d)"
proof -
  have "split_char (CHR ''-'') (digits 4 y @ CHR ''-'' # digits 2 m @ CHR ''-'' # digits 2 d)
          = [digits 4 y, digits 2 m, digits 2 d]"
    by (simp add: split_char_append split_char_no_sep digits_no_sep(1))
  then show ?thesis
    by (simp add: formatDate_def padStart_long length_digits yyyymmdd_def)
qed

lemma iso_fields_iso:
  assumes "y < 10000" and "m < 100" and "d < 100"
  shows "iso_fields (digits 4 y @ CHR ''-'' # digits 2 m @ CHR ''-'' # digits 2 d) = Some (y, m, d)"
proof -
  have "split_char (CHR ''-'') (digits 4 y @ CHR ''-'' # digits 2 m @ CHR ''-'' # digits 2 d)
          = [digits 4 y, digits 2 m, digits 2 d]"
    by (simp add: split_char_append split_char_no_sep digits_no_sep(1))
  moreover have "digits_val (digits 4 y) = y" "digits_val (digits 2 m) = m" "digits_val (digits 2 d) = d"
    using assms by (simp_all add: digits_val_digits)
  ultimately show ?thesis
    by (simp add: iso_fields_def four_digits_def two_digits_def length_digits digits_all_digits)
qed

subsection \<open>The time value of a date and its rendering\<close>

lemma DayFromYear_bounds:
  assumes "y \<le> 9999"
  shows "- 719528 \<le> DayFromYear (int y)" and "DayFromYear (int y + 1) \<le> 2932897"
proof -
  have "DayFromYear 0 \<le> DayFromYear (int y)"
    by (rule DayFromYear_mono) simp
  then show "- 719528 \<le> DayFromYear (int y)"
    by (simp add: DayFromYear_def)
  have "DayFromYear (int y + 1) \<le> DayFromYear 10000"
    by (rule DayFromYear_mono) (use assms in simp)
  then show "DayFromYear (int y + 1) \<le> 2932897"
    by (simp add: DayFromYear_def)
qed

lemma MakeDay_bounds:
  assumes "calendar_date y m d" and "y \<le> 9999"
  shows "- 719528 \<le> MakeDay (int y) (m - 1) (int d)" and "MakeDay (int y) (m - 1) (int d) < 2932897"
proof -
  note w = MakeDay_within [OF assms(1)]
  show "- 719528 \<le> MakeDay (int y) (m - 1) (int d)"
    using DayFromYear_bounds(1) [OF assms(2)] w(1) by (simp add: MakeDay_def)
  have "MakeDay (int y) (m - 1) (int d) < DayFromYear (int y + 1)"
    using w(3) by (simp add: MakeDay_def DayFromYear_Suc)
  with DayFromYear_bounds(2) [OF assms(2)] show "MakeDay (int y) (m - 1) (int d) < 2932897"
    by simp
qed

lemma TimeClip_day: "- 719528 \<le> D \<Longrightarrow> D \<le> 2932897 \<Longrightarrow> TimeClip (msPerDay * D) = Some (msPerDay * D)"
  by (simp add: TimeClip_def msPerDay_def abs_le_iff)

lemma calendar_date_bounds: "calendar_date y m d \<Longrightarrow> m < 100 \<and> d < 100"
  by (auto simp: calendar_date_def month_length_def split: if_splits)

lemma getTime_iso:
  assumes "calendar_date y m d" and "y \<le> 9999"
  shows "getTime engine (digits 4 y @ CHR ''-'' # digits 2 m @ CHR ''-'' # digits 2 d)
           = Some (msPerDay * MakeDay (int y) (m - 1) (int d))"
proof -
  from calendar_date_bounds [OF assms(1)] assms(2)
  have "iso_fields (digits 4 y @ CHR ''-'' # digits 2 m @ CHR ''-'' # digits 2 d) = Some (y, m, d)"
    by (intro iso_fields_iso) simp_all
  then have "Date_parse engine (digits 4 y @ CHR ''-'' # digits 2 m @ CHR ''-'' # digits 2 d)
               = Some (msPerDay * MakeDay (int y) (m - 1) (int d))"
    using assms(1) by (simp add: Date_parse_def valid_date_calendar)
  moreover have "TimeClip (msPerDay * MakeDay (int y) (m - 1) (int d))
                   = Some (msPerDay * MakeDay (int y) (m - 1) (int d))"
    using MakeDay_bounds [OF assms] by (intro TimeClip_day) simp_all
  ultimately show ?thesis
    by (simp add: getTime_def)
qed

lemma toISOString_day:
  assumes "calendar_date y m d" and "y \<le> 9999"
  shows "hd (split_char (CHR ''T'') (toISOString (msPerDay * MakeDay (int y) (m - 1) (int d))))
           = digits 4 y @ CHR ''-'' # digits 2 m @ CHR ''-'' # digits 2 d"
proof -
  define D where "D = MakeDay (int y) (m - 1) (int d)"
  from assms(1) have m: "1 \<le> m"
    by (simp add: calendar_date_def)
  have day: "(msPerDay * D) div msPerDay = D"
    by (simp add: msPerDay_def)
  have year: "year_string (YearFromDay D) = digits 4 y"
    unfolding D_def YearFromDay_MakeDay [OF assms(1)] using assms(2) by (simp add: year_string_def)
  have month: "MonthFromDay D + 1 = m"
    unfolding D_def MonthFromDay_MakeDay [OF assms(1)] using m by simp
  have date: "nat (DateFromDay D) = d"
    unfolding D_def DateFromDay_MakeDay [OF assms(1)] by simp
  obtain rest where iso: "toISOString (msPerDay * D)
      = (digits 4 y @ CHR ''-'' # digits 2 m @ CHR ''-'' # digits 2 d) @ CHR ''T'' # rest"
    unfolding toISOString_def Let_def day year month date by simp
  have "CHR ''T'' \<notin> set (digits 4 y @ CHR ''-'' # digits 2 m @ CHR ''-'' # digits 2 d)"
    by (simp add: digits_no_sep(2))
  from split_char_append [OF this] show ?thesis
    unfolding D_def [symmetric] iso by simp
qed

lemma digits_length_8: "length (yyyymmdd (y, m, d)) = 8 \<and> list_all is_digit (yyyymmdd (y, m, d))"
  by (simp add: yyyymmdd_def length_digits digits_all_digits)

lemma yyyymmdd_inj:
  assumes "yyyymmdd (y, m, d) = yyyymmdd (y', m', d')"
    and "y \<le> 9999" "m < 100" "d < 100" "y' \<le> 9999" "m' < 100" "d' < 100"
  shows "(y, m, d) = (y', m', d')"
proof -
  from assms(1) have "digits 4 y = digits 4 y' \<and> digits 2 m @ digits 2 d = digits 2 m' @ digits 2 d'"
    unfolding yyyymmdd_def prod.case by (intro iffD1 [OF append_eq_append_conv]) (simp_all add: length_digits)
  then have "digits 4 y = digits 4 y'" "digits 2 m = digits 2 m'" "digits 2 d = digits 2 d'"
    by (simp_all add: length_digits)
  with assms(2-) show ?thesis
    by (auto dest!: digits_inj)
qed

lemma next_date_neq: "next_date (y, m, d) \<noteq> (y, m, d)"
  by (simp add: next_date_def)

lemma next_date_year: "next_date (y, m, d) = (y', m', d') \<Longrightarrow> y \<le> y'"
  by (auto simp: next_date_def split: if_splits)

lemma createEvent_end_key:
  assumes "calendar_date y m d" and "next_date (y, m, d) = (y', m', d')" and "y' \<le> 9999"
    and "formatDate (g_end params) ''-'' = digits 4 y @ CHR ''-'' # digits 2 m @ CHR ''-'' # digits 2 d"
  shows "createEvent engine uid params
           = Inr (event_text (message_text (g_message params)) (formatDate (g_start params) [])
                    (yyyymmdd (y', m', d')) uid)"
proof -
  from next_date_year [OF assms(2)] assms(3) have y: "y \<le> 9999"
    by simp
  note nxt = next_date_MakeDay [OF assms(1,2)]
  have "getTime engine (formatDate (g_end params) ''-'') = Some (msPerDay * MakeDay (int y) (m - 1) (int d))"
    unfolding assms(4) by (rule getTime_iso [OF assms(1) y])
  moreover have "msPerDay * MakeDay (int y) (m - 1) (int d) + 24 * 60 * 60 * 1000
                   = msPerDay * MakeDay (int y') (m' - 1) (int d')"
    unfolding nxt(2) by (simp add: msPerDay_def)
  moreover have "TimeClip (msPerDay * MakeDay (int y') (m' - 1) (int d'))
                   = Some (msPerDay * MakeDay (int y') (m' - 1) (int d'))"
    using MakeDay_bounds [OF nxt(1) assms(3)] by (intro TimeClip_day) simp_all
  ultimately have "Option.bind (getTime engine (formatDate (g_end params) ''-''))
                     (\<lambda>t. TimeClip (t + 24 * 60 * 60 * 1000))
                   = Some (msPerDay * MakeDay (int y') (m' - 1) (int d'))"
    by (simp only: bind.bind_lunit)
  then show ?thesis
    unfolding createEvent_text
    by (simp only: option.case toISOString_day [OF nxt(1) assms(3)] formatDate_iso)
qed

text \<open>
  C1. The end key of a range is a calendar date \<open>y-m-d\<close>, month and day spelt on one or two
  digits, whose next day is not after the year 9999. Then \<open>createEvent\<close> returns the event
  block whose \<open>DTEND\<close> field is the next calendar day, as eight digits \<open>YYYYMMDD\<close>; the end key
  itself is formatted as the eight digits of \<open>y-m-d\<close>, which differ from those of
  \<open>DTEND\<close>. So a one-day range has \<open>DTSTART\<close> its day and \<open>DTEND\<close> the day after.
\<close>

theorem createEvent_next_day:
  assumes "calendar_date y m d" and "fst (next_date (y, m, d)) \<le> 9999"
    and "g_end params \<in> set (date_keys y m d)"
  shows "createEvent engine uid params
           = Inr (event_text (message_text (g_message params)) (formatDate (g_start params) [])
                    (yyyymmdd (next_date (y, m, d))) uid)
         \<and> formatDate (g_end params) [] = yyyymmdd (y, m, d)
         \<and> length (yyyymmdd (next_date (y, m, d))) = 8
         \<and> list_all is_digit (yyyymmdd (next_date (y, m, d)))
         \<and> yyyymmdd (next_date (y, m, d)) \<noteq> yyyymmdd (y, m, d)"
proof -
  obtain y' m' d' where n: "next_date (y, m, d) = (y', m', d')"
    by (cases "next_date (y, m, d)")
  from assms(2) have y': "y' \<le> 9999"
    by (simp add: n)
  from next_date_year [OF n] y' have y: "y \<le> 9999"
    by simp
  note nxt = next_date_MakeDay [OF assms(1) n]
  have "yyyymmdd (y', m', d') \<noteq> yyyymmdd (y, m, d)"
  proof
    assume "yyyymmdd (y', m', d') = yyyymmdd (y, m, d)"
    then have "(y', m', d') = (y, m, d)"
      using calendar_date_bounds [OF assms(1)] calendar_date_bounds [OF nxt(1)] y y'
      by (intro yyyymmdd_inj) simp_all
    with n next_date_neq [of y m d] show False
      by simp
  qed
  then show ?thesis
    unfolding n
    using createEvent_end_key [OF assms(1) n y' formatDate_key(1) [OF assms(3)], of engine uid]
      formatDate_key(2) [OF assms(3)] digits_length_8 [of y' m' d']
    by simp
qed

theorem createEvent_next_day_witness:
  "createEvent moscow_engine (counter_ids 0)
     \<lparr>g_start = ''2026-1-31'', g_end = ''2026-1-31'', g_message = Some ''Holiday''\<rparr>
     = Inr (event_text ''Holiday'' ''20260131'' ''20260201'' (counter_ids 0))
   \<and> createEvent moscow_engine (counter_ids 0)
     \<lparr>g_start = ''2025-12-30'', g_end = ''2025-12-31'', g_message = None\<rparr>
     = Inr (event_text [] ''20251230'' ''20260101'' (counter_ids 0))"
proof -
  have dates: "calendar_date 2026 1 31" "calendar_date 2025 12 31"
    "fst (next_date (2026, 1, 31)) \<le> 9999" "fst (next_date (2025, 12, 31)) \<le> 9999"
    by code_simp+
  have keys:
    "g_end \<lparr>g_start = ''2026-1-31'', g_end = ''2026-1-31'', g_message = Some ''Holiday''\<rparr>
       \<in> set (date_keys 2026 1 31)"
    "g_end \<lparr>g_start = ''2025-12-30'', g_end = ''2025-12-31'', g_message = None\<rparr>
       \<in> set (date_keys 2025 12 31)"
    by code_simp+
  have after: "yyyymmdd (next_date (2026, 1, 31)) = ''20260201''"
    "yyyymmdd (next_date (2025, 12, 31)) = ''20260101''"
    by code_simp+
  have start: "formatDate ''2026-1-31'' [] = ''20260131''" "formatDate ''2025-12-30'' [] = ''20251230''"
    by code_simp+
  have "createEvent moscow_engine (counter_ids 0)
     \<lparr>g_start = ''2026-1-31'', g_end = ''2026-1-31'', g_message = Some ''Holiday''\<rparr>
     = Inr (event_text ''Holiday'' ''20260131'' ''20260201'' (counter_ids 0))"
    using createEvent_next_day [OF dates(1) dates(3) keys(1), of moscow_engine "counter_ids 0"]
    unfolding after by (simp add: start message_text_def)
  moreover have "createEvent moscow_engine (counter_ids 0)
     \<lparr>g_start = ''2025-12-30'', g_end = ''2025-12-31'', g_message = None\<rparr>
     = Inr (event_text [] ''20251230'' ''20260101'' (counter_ids 0))"
    using createEvent_next_day [OF dates(2) dates(4) keys(2), of moscow_engine "counter_ids 0"]
    unfolding after by (simp add: start message_text_def)
  ultimately show ?thesis
    by (rule conjI)
qed

end
